theory Spec2Isabelle
  imports Main "HOL-Library.Word" "HOL-Library.Multiset"
begin

unbundle bit_operations_syntax

section \<open>The program: bin-parser.c\<close>

text \<open>
  The program reads a binary file as packed 12-bit values (two per 3 bytes), counts each
  value in \<open>valueCount\<close>, keeps the last 32 values in the ring \<open>lastValues\<close>, and writes
  two reports. The C globals become the record \<open>state\<close>, C's \<open>int\<close> is \<open>int\<close> (the
  indices, counts and return codes of the program stay within a few thousand of 0, far
  from the bounds of a 32-bit \<open>int\<close>), the unsigned types are words of their width
  (\<open>size_t\<close> is 64 bits). The \<open>assert\<close>s of the program are not part of the model; those
  on the values passed to \<open>insertValue\<close> and on \<open>max\<close> are shown to hold (\<open>unpack_le\<close>,
  \<open>max_parsed_range\<close>).
\<close>

type_synonym uint8_t = "8 word"
type_synonym uint16_t = "16 word"
type_synonym uint32_t = "32 word"
type_synonym size_t = "64 word"

abbreviation (input) BITS_PER_VALUE :: nat where "BITS_PER_VALUE \<equiv> 12"
abbreviation (input) VALUE_ARRAY_SIZE :: nat where "VALUE_ARRAY_SIZE \<equiv> 4096"
abbreviation (input) SUCCESS :: int where "SUCCESS \<equiv> 0"
abbreviation (input) FAILURE :: int where "FAILURE \<equiv> - 1"

text \<open>\<open>MAX_VALUE\<close> is 0xFFF and \<open>OUTPUT_COUNT\<close> is 32, at the type of each use.\<close>

definition UPPER_12BITS_MASK :: "uint32_t \<Rightarrow> uint32_t" where
  "UPPER_12BITS_MASK x = drop_bit BITS_PER_VALUE (x AND push_bit BITS_PER_VALUE 0xFFF)"

definition LOWER_12BITS_MASK :: "uint32_t \<Rightarrow> uint32_t" where
  "LOWER_12BITS_MASK x = x AND 0xFFF"

subsection \<open>The two lists\<close>

record state =
  valueCount :: "uint8_t list"
  lastValues :: "uint16_t list"
  lastValuesIdx :: size_t
  lastValuesCount :: size_t

text \<open>
  \<open>uint8_t valueCount[VALUE_ARRAY_SIZE] = {0}\<close> and \<open>uint16_t lastValues[OUTPUT_COUNT] = {0}\<close>.
\<close>

definition zero_counts :: "uint8_t list" where
  "zero_counts = replicate VALUE_ARRAY_SIZE 0"

definition zero_values :: "uint16_t list" where
  "zero_values = replicate 32 0"

definition init_state :: state where
  "init_state = \<lparr>valueCount = zero_counts, lastValues = zero_values,
                  lastValuesIdx = 0, lastValuesCount = 0\<rparr>"

text \<open>
  \<open>insertValue\<close>: the counter is a \<open>uint8_t\<close>, so \<open>++\<close> wraps from 255 to 0. The function
  is modelled for values up to 0xFFF, the only ones \<open>parseInput\<close> passes (it masks them
  and asserts the bound), so the index is inside the table; a greater value would write
  outside \<open>valueCount\<close> in C. The cursor is below 32 before and after.
\<close>

definition insertValue :: "uint16_t \<Rightarrow> state \<Rightarrow> state" where
  "insertValue v s =
     (let s1 = s\<lparr>valueCount := (valueCount s)[unat v := valueCount s ! unat v + 1]\<rparr>;
          s2 = s1\<lparr>lastValues := (lastValues s1)[unat (lastValuesIdx s1) := v],
                  lastValuesIdx := lastValuesIdx s1 + 1\<rparr>;
          s3 = s2\<lparr>lastValuesIdx := lastValuesIdx s2 mod 32\<rparr>
      in if lastValuesCount s3 < 32
         then s3\<lparr>lastValuesCount := lastValuesCount s3 + 1\<rparr>
         else s3)"

subsection \<open>Reading the input\<close>

text \<open>
  The input file is the list of its bytes. \<open>get24bits\<close> reads up to 3 bytes into a local
  buffer that is not initialised: the bytes \<open>fread\<close> did not fill keep whatever was there,
  the parameter \<open>junk\<close>. It returns the number of bytes read, the 24-bit value and the
  rest of the file.
\<close>

type_synonym byte = "8 word"
type_synonym junk = "byte \<times> byte \<times> byte"

fun fread3 :: "junk \<Rightarrow> byte list \<Rightarrow> junk" where
  "fread3 (j0, j1, j2) [] = (j0, j1, j2)"
| "fread3 (j0, j1, j2) [a] = (a, j1, j2)"
| "fread3 (j0, j1, j2) [a, b] = (a, b, j2)"
| "fread3 (j0, j1, j2) (a # b # c # rest) = (a, b, c)"

definition value24 :: "byte \<Rightarrow> byte \<Rightarrow> byte \<Rightarrow> uint32_t" where
  "value24 b0 b1 b2 = push_bit 16 (ucast b0) OR push_bit 8 (ucast b1) OR ucast b2"

definition get24bits :: "junk \<Rightarrow> byte list \<Rightarrow> int \<times> uint32_t \<times> byte list" where
  "get24bits jnk inp =
     (case fread3 jnk inp of (b0, b1, b2) \<Rightarrow>
        (int (length (take 3 inp)), value24 b0 b1 b2, drop 3 inp))"

text \<open>
  The loop of \<open>parseInput\<close>, with the running \<open>max\<close>. It returns \<open>FAILURE\<close> at a single
  leftover byte, and \<open>max\<close> at the end of the file. \<open>ingest\<close> is what the loop does with
  one value: \<open>insertValue(v); if(v > max) max = v;\<close>.
\<close>

definition max_step :: "uint16_t \<Rightarrow> int \<Rightarrow> int" where
  "max_step v mx = (if uint v > mx then uint v else mx)"

definition ingest :: "uint16_t \<Rightarrow> int \<times> state \<Rightarrow> int \<times> state" where
  "ingest v ms = (case ms of (mx, s) \<Rightarrow> (max_step v mx, insertValue v s))"

function parse_loop :: "junk \<Rightarrow> byte list \<Rightarrow> int \<Rightarrow> state \<Rightarrow> int \<times> state" where
  "parse_loop jnk inp mx s =
     (case get24bits jnk inp of (retVal, val, rest) \<Rightarrow>
        if retVal = 0 then (mx, s)
        else if retVal = 1 then (FAILURE, s)
        else
          let ms1 = (if retVal \<ge> 2
                     then ingest (ucast (UPPER_12BITS_MASK val)) (mx, s) else (mx, s));
              ms2 = (if retVal \<ge> 3
                     then ingest (ucast (LOWER_12BITS_MASK val)) ms1 else ms1)
          in parse_loop jnk rest (fst ms2) (snd ms2))"
  by pat_completeness auto
termination
  by (relation "measure (\<lambda>(jnk, inp, mx, s). length inp)")
     (auto simp: get24bits_def split: prod.splits)

text \<open>\<open>parseInput\<close>: \<open>None\<close> is a file that cannot be opened.\<close>

definition parseInput :: "junk \<Rightarrow> byte list option \<Rightarrow> state \<Rightarrow> int \<times> state" where
  "parseInput jnk input s =
     (case input of None \<Rightarrow> (FAILURE, s) | Some inp \<Rightarrow> parse_loop jnk inp 0 s)"

subsection \<open>The output file\<close>

text \<open>
  What one \<open>fopen\<close> of the output file gives: whether it succeeds, and which of the
  \<open>fprintf\<close> calls on the stream fail (numbered from 0). A report is logged as the calls
  it makes on its stream, each \<open>fprintf\<close> with the line it writes and whether it
  succeeded.
\<close>

record stream =
  opens :: bool
  write_fails :: "nat \<Rightarrow> bool"

datatype line = Header string | Value int

datatype call = Fopen bool | Fprintf line bool | Fclose

datatype error = OutOfBounds int

fun is_fprintf :: "call \<Rightarrow> bool" where
  "is_fprintf (Fprintf l ok) = True"
| "is_fprintf c = False"

definition fprintf :: "stream \<Rightarrow> line \<Rightarrow> call list \<Rightarrow> bool \<times> call list" where
  "fprintf f l log =
     (let ok = \<not> write_fails f (length (filter is_fprintf log))
      in (ok, log @ [Fprintf l ok]))"

text \<open>A read of \<open>valueCount[i]\<close>; outside the table it is undefined behaviour in C.\<close>

definition valueCount_at :: "state \<Rightarrow> int \<Rightarrow> error + uint8_t" where
  "valueCount_at s i =
     (if 0 \<le> i \<and> i < int VALUE_ARRAY_SIZE then Inr (valueCount s ! nat i)
      else Inl (OutOfBounds i))"

subsection \<open>The sorted report\<close>

function getCount_loop :: "state \<Rightarrow> int \<Rightarrow> int \<Rightarrow> error + int" where
  "getCount_loop s i cnt =
     (if i \<ge> 0 \<and> cnt < 32 then
        (case valueCount_at s i of
           Inl e \<Rightarrow> Inl e
         | Inr c \<Rightarrow> getCount_loop s (i - 1) (if c > 0 then cnt + uint c else cnt))
      else Inr cnt)"
  by pat_completeness auto
termination
  by (relation "measure (\<lambda>(s, i, cnt). nat (i + 1))") auto

definition getCount :: "state \<Rightarrow> int \<Rightarrow> error + int" where
  "getCount s mx = getCount_loop s mx 0"

function getStart_loop :: "state \<Rightarrow> int \<Rightarrow> int \<Rightarrow> error + int" where
  "getStart_loop s i cnt =
     (if i \<ge> 0 \<and> cnt < 32 then
        (case valueCount_at s i of
           Inl e \<Rightarrow> Inl e
         | Inr c \<Rightarrow> getStart_loop s (i - 1) (if c > 0 then cnt + uint c else cnt))
      else Inr (i + 1))"
  by pat_completeness auto
termination
  by (relation "measure (\<lambda>(s, i, cnt). nat (i + 1))") auto

definition getStart :: "state \<Rightarrow> int \<Rightarrow> error + int" where
  "getStart s mx = getStart_loop s mx 0"

text \<open>The inner loop: \<open>thisCount\<close> lines with the value \<open>i\<close>, until a write fails.\<close>

function print_loop :: "stream \<Rightarrow> int \<Rightarrow> int \<Rightarrow> int \<Rightarrow> call list \<Rightarrow> bool \<times> call list" where
  "print_loop f i j thisCount log =
     (if j < thisCount then
        (case fprintf f (Value i) log of (ok, log') \<Rightarrow>
           if \<not> ok then (False, log') else print_loop f i (j + 1) thisCount log')
      else (True, log))"
  by pat_completeness auto
termination
  by (relation "measure (\<lambda>(f, i, j, thisCount, log). nat (thisCount - j))") auto

text \<open>
  The outer loop \<open>for(i=start; count > 0; i++, count--)\<close>: \<open>count\<close> goes down by one for
  each index, also at \<open>continue\<close>.
\<close>

function emit_loop ::
  "stream \<Rightarrow> state \<Rightarrow> int \<Rightarrow> int \<Rightarrow> int \<Rightarrow> call list \<Rightarrow> error + (int \<times> call list)" where
  "emit_loop f s start i cnt log =
     (if cnt > 0 then
        (case valueCount_at s i of
           Inl e \<Rightarrow> Inl e
         | Inr c \<Rightarrow>
             if uint c \<le> 0 then emit_loop f s start (i + 1) (cnt - 1) log
             else
               let thisCount = (if i = start \<and> cnt > 32
                                then uint c - (cnt - 32) else uint c)
               in (case print_loop f i 0 thisCount log of (ok, log') \<Rightarrow>
                     if \<not> ok then Inr (FAILURE, log')
                     else emit_loop f s start (i + 1) (cnt - 1) log'))
      else Inr (SUCCESS, log))"
  by pat_completeness auto
termination
  by (relation "measure (\<lambda>(f, s, start, i, cnt, log). nat cnt)") auto

definition CRLF :: string where
  "CRLF = [CHR 0x0D, CHR 0x0A]"

definition sorted_header :: string where
  "sorted_header = ''--Sorted Max 32 Values--'' @ CRLF"

definition last_header :: string where
  "last_header = ''--Last 32 Values--'' @ CRLF"

text \<open>
  \<open>generateSortedOutput\<close>: the result of the header's \<open>fprintf\<close> is not looked at; the
  stream is closed on both ways out.
\<close>

definition generateSortedOutput :: "stream \<Rightarrow> state \<Rightarrow> int \<Rightarrow> error + (int \<times> call list)" where
  "generateSortedOutput f s mx =
     (if \<not> opens f then Inr (FAILURE, [Fopen False])
      else
        let log = snd (fprintf f (Header sorted_header) [Fopen True]) in
        (case getCount s mx of
           Inl e \<Rightarrow> Inl e
         | Inr cnt \<Rightarrow>
            (case getStart s mx of
               Inl e \<Rightarrow> Inl e
             | Inr start \<Rightarrow>
                (case emit_loop f s start start cnt log of
                   Inl e \<Rightarrow> Inl e
                 | Inr (retVal, log') \<Rightarrow> Inr (retVal, log' @ [Fclose])))))"

subsection \<open>The report of the last values\<close>

text \<open>
  \<open>int idx = (lastValuesIdx - lastValuesCount) % OUTPUT_COUNT\<close> is computed in \<open>size_t\<close>
  and converted to \<open>int\<close>.
\<close>

definition start_idx :: "state \<Rightarrow> int" where
  "start_idx s = sint (ucast ((lastValuesIdx s - lastValuesCount s) mod 32) :: 32 word)"

function last_loop :: "stream \<Rightarrow> state \<Rightarrow> int \<Rightarrow> int \<Rightarrow> call list \<Rightarrow> int \<times> call list" where
  "last_loop f s idx i log =
     (if i < uint (lastValuesCount s) then
        (let v = lastValues s ! nat idx in
         case fprintf f (Value (uint v)) log of (ok, log') \<Rightarrow>
           if \<not> ok then (FAILURE, log')
           else last_loop f s ((idx + 1) mod 32) (i + 1) log')
      else (SUCCESS, log))"
  by pat_completeness auto
termination
  by (relation "measure (\<lambda>(f, s, idx, i, log). nat (uint (lastValuesCount s) - i))") auto

definition generateLastOutput :: "stream \<Rightarrow> state \<Rightarrow> int \<times> call list" where
  "generateLastOutput f s =
     (if \<not> opens f then (FAILURE, [Fopen False])
      else
        let log = snd (fprintf f (Header last_header) [Fopen True]);
            idx = start_idx s
        in (case last_loop f s idx 0 log of (retVal, log') \<Rightarrow> (retVal, log' @ [Fclose])))"

subsection \<open>main\<close>

text \<open>
  The run after the check of \<open>argc\<close>: the input file, the junk of the read buffer, the
  stream of \<open>fopen(output, "w")\<close> and the stream of \<open>fopen(output, "a")\<close>. It returns the
  exit code with the calls made on the output file, in order.
\<close>

record env =
  input_file :: "byte list option"
  stack_junk :: junk
  stream_w :: stream
  stream_a :: stream

definition main :: "env \<Rightarrow> error + (int \<times> call list)" where
  "main e =
     (case parseInput (stack_junk e) (input_file e) init_state of (mx, s) \<Rightarrow>
        if mx < 0 then Inr (FAILURE, [])
        else
          (case generateSortedOutput (stream_w e) s mx of
             Inl er \<Rightarrow> Inl er
           | Inr (r1, log1) \<Rightarrow>
               if r1 < SUCCESS then Inr (FAILURE, log1)
               else
                 (case generateLastOutput (stream_a e) s of (r2, log2) \<Rightarrow>
                    if r2 < SUCCESS then Inr (FAILURE, log1 @ log2)
                    else Inr (SUCCESS, log1 @ log2))))"

subsection \<open>Reading a log\<close>

text \<open>The decimal digits of \<open>%d\<close>.\<close>

fun show_nat :: "nat \<Rightarrow> string" where
  "show_nat n = (if n < 10 then [''0123456789'' ! n]
                 else show_nat (n div 10) @ [''0123456789'' ! (n mod 10)])"

definition show_int :: "int \<Rightarrow> string" where
  "show_int i = (if i < 0 then CHR ''-'' # show_nat (nat (- i)) else show_nat (nat i))"

fun render :: "call \<Rightarrow> string" where
  "render (Fprintf (Header h) True) = h"
| "render (Fprintf (Value v) True) = show_int v @ CRLF"
| "render c = []"

definition written :: "call list \<Rightarrow> string" where
  "written log = concat (map render log)"



subsection \<open>The stream of values\<close>

text \<open>
  The values of an input as section 4.1 of the specification gives them: a group of 3
  bytes yields its upper and its lower 12 bits, in this order; a last group of 2 bytes
  yields the upper 12 bits of the window \<open>byte0<<16 | byte1<<8 | 0\<close>; a single
  leftover byte yields nothing. \<open>parse_loop_unpack\<close> below shows that \<open>parseInput\<close>
  inserts exactly these values.
\<close>

fun unpack :: "byte list \<Rightarrow> uint16_t list" where
  "unpack (b0 # b1 # b2 # rest) =
     ucast (UPPER_12BITS_MASK (value24 b0 b1 b2))
       # ucast (LOWER_12BITS_MASK (value24 b0 b1 b2)) # unpack rest"
| "unpack [b0, b1] = [ucast (UPPER_12BITS_MASK (value24 b0 b1 0))]"
| "unpack [b0] = []"
| "unpack [] = []"

definition healthy :: stream where
  "healthy = \<lparr>opens = True, write_fails = (\<lambda>n. False)\<rparr>"

text \<open>The sum of the counts of all buckets of \<open>valueCount\<close>.\<close>

definition count_total :: "state \<Rightarrow> nat" where
  "count_total s = sum_list (map unat (valueCount s))"

text \<open>The count of bucket \<open>j\<close> as the reports read it, for \<open>j\<close> inside the table.\<close>

definition bucket :: "state \<Rightarrow> int \<Rightarrow> int" where
  "bucket s j = uint (valueCount s ! nat j)"



declare parse_loop.simps [simp del]
declare getCount_loop.simps [simp del]
declare getStart_loop.simps [simp del]
declare print_loop.simps [simp del]
declare emit_loop.simps [simp del]
declare last_loop.simps [simp del]
declare show_nat.simps [simp del]

section \<open>Properties\<close>

subsection \<open>Bits\<close>

lemma upper_alt: "UPPER_12BITS_MASK x = drop_bit 12 x AND 0xFFF"
proof -
  have m: "(0xFFF :: uint32_t) = mask 12" by (simp add: mask_eq_exp_minus_1)
  show ?thesis
    unfolding UPPER_12BITS_MASK_def m
    by (rule bit_eqI) (auto simp add: bit_simps dest: bit_imp_le_length)
qed

lemma upper_le: "UPPER_12BITS_MASK x \<le> 0xFFF"
  unfolding upper_alt by (rule word_and_le1)

lemma lower_le: "LOWER_12BITS_MASK x \<le> 0xFFF"
  unfolding LOWER_12BITS_MASK_def by (rule word_and_le1)

lemma upper_junk: "UPPER_12BITS_MASK (value24 a b j) = UPPER_12BITS_MASK (value24 a b 0)"
proof -
  have m: "(0xFFF :: uint32_t) = mask 12" by (simp add: mask_eq_exp_minus_1)
  show ?thesis
    unfolding UPPER_12BITS_MASK_def value24_def m
    by (rule bit_eqI) (auto simp add: bit_simps dest: bit_imp_le_length)
qed

lemma unat_ucast_12: "x \<le> (0xFFF::uint32_t) \<Longrightarrow> unat (ucast x :: uint16_t) = unat x"
  by (simp add: unsigned_ucast_eq take_bit_nat_eq_self word_le_nat_alt)

lemma sint_ucast_small:
  fixes w :: size_t
  assumes "uint w < 32"
  shows "sint (ucast w :: 32 word) = uint w"
proof -
  have "signed_take_bit 31 (uint w) = uint w"
  proof (rule signed_take_bit_int_eq_self)
    have "- (2 ^ 31) \<le> (0::int)" by simp
    also have "(0::int) \<le> uint w" by simp
    finally show "- (2 ^ 31) \<le> uint w" .
    show "uint w < 2 ^ 31" using assms by simp
  qed
  then show ?thesis
    using assms by (simp add: sint_uint unsigned_ucast_eq take_bit_int_eq_self)
qed

lemma start_idx_eq: "start_idx s = (uint (lastValuesIdx s) - uint (lastValuesCount s)) mod 32"
proof -
  let ?w = "(lastValuesIdx s - lastValuesCount s) mod 32"
  have lt: "uint ?w < 32"
    by (simp add: uint_mod)
  have "uint ?w = uint (lastValuesIdx s - lastValuesCount s) mod 32"
    by (simp add: uint_mod)
  also have "\<dots> = ((uint (lastValuesIdx s) - uint (lastValuesCount s)) mod 2 ^ 64) mod 32"
    by (simp add: uint_word_ariths)
  also have "\<dots> = (uint (lastValuesIdx s) - uint (lastValuesCount s)) mod 32"
    by (rule mod_mod_cancel) simp
  finally have u: "uint ?w = (uint (lastValuesIdx s) - uint (lastValuesCount s)) mod 32" .
  show ?thesis
    unfolding start_idx_def using sint_ucast_small [OF lt] u by simp
qed

subsection \<open>get24bits and the loop of parseInput, by the shape of the input\<close>

lemma get24bits_Nil: "get24bits (j0, j1, j2) [] = (0, value24 j0 j1 j2, [])"
  by (simp add: get24bits_def)

lemma get24bits_1: "get24bits (j0, j1, j2) [a] = (1, value24 a j1 j2, [])"
  by (simp add: get24bits_def)

lemma get24bits_2: "get24bits (j0, j1, j2) [a, b] = (2, value24 a b j2, [])"
  by (simp add: get24bits_def)

lemma get24bits_3: "get24bits (j0, j1, j2) (a # b # c # rest) = (3, value24 a b c, rest)"
  by (simp add: get24bits_def)

lemma parse_loop_Nil: "parse_loop jnk [] mx s = (mx, s)"
  by (cases jnk) (subst parse_loop.simps, simp add: get24bits_Nil)

lemma parse_loop_1: "parse_loop jnk [a] mx s = (FAILURE, s)"
  by (cases jnk) (subst parse_loop.simps, simp add: get24bits_1)

lemma parse_loop_2:
  "parse_loop jnk [a, b] mx s = ingest (ucast (UPPER_12BITS_MASK (value24 a b 0))) (mx, s)"
proof (cases jnk)
  case (fields j0 j1 j2)
  show ?thesis
    unfolding fields
    by (subst parse_loop.simps) (simp add: get24bits_2 parse_loop_Nil upper_junk [of a b j2])
qed

lemma parse_loop_3:
  "parse_loop jnk (a # b # c # rest) mx s =
     (case ingest (ucast (LOWER_12BITS_MASK (value24 a b c)))
             (ingest (ucast (UPPER_12BITS_MASK (value24 a b c))) (mx, s))
      of (mx', s') \<Rightarrow> parse_loop jnk rest mx' s')"
proof (cases jnk)
  case (fields j0 j1 j2)
  show ?thesis
    unfolding fields
    by (subst parse_loop.simps) (simp add: get24bits_3 split: prod.splits)
qed

lemma parse_loop_unpack:
  "parse_loop jnk inp mx s =
     (case fold ingest (unpack inp) (mx, s) of (mx', s') \<Rightarrow>
        (if length inp mod 3 = 1 then FAILURE else mx', s'))"
proof (induction inp arbitrary: mx s rule: unpack.induct)
  case (1 b0 b1 b2 rest)
  show ?case
    by (simp add: parse_loop_3 "1.IH" split: prod.splits)
next
  case (2 b0 b1)
  show ?case by (simp add: parse_loop_2 split: prod.splits)
next
  case (3 b0)
  show ?case by (simp add: parse_loop_1)
next
  case 4
  show ?case by (simp add: parse_loop_Nil)
qed

lemma div3_step: "(3 + n) div 3 = Suc (n div 3)" "(3 + n) mod 3 = n mod 3" for n :: nat
  by presburger+

lemma length_unpack:
  "length (unpack inp) = 2 * (length inp div 3) + (if length inp mod 3 = 2 then 1 else 0)"
  by (induction inp rule: unpack.induct) (simp_all add: div3_step)

lemma unpack_le: "v \<in> set (unpack inp) \<Longrightarrow> v \<le> 0xFFF"
proof (induction inp rule: unpack.induct)
  case (1 b0 b1 b2 rest)
  have u: "(ucast (UPPER_12BITS_MASK (value24 b0 b1 b2)) :: uint16_t) \<le> 0xFFF"
    using upper_le [of "value24 b0 b1 b2"]
    by (simp add: word_le_nat_alt unat_ucast_12)
  have l: "(ucast (LOWER_12BITS_MASK (value24 b0 b1 b2)) :: uint16_t) \<le> 0xFFF"
    using lower_le [of "value24 b0 b1 b2"]
    by (simp add: word_le_nat_alt unat_ucast_12)
  from 1 u l show ?case by auto
next
  case (2 b0 b1)
  have u: "(ucast (UPPER_12BITS_MASK (value24 b0 b1 0)) :: uint16_t) \<le> 0xFFF"
    using upper_le [of "value24 b0 b1 0"]
    by (simp add: word_le_nat_alt unat_ucast_12)
  from 2 u show ?case by auto
qed auto

subsection \<open>A single leftover byte\<close>

text \<open>
  C6: an input whose length is 1 modulo 3 makes \<open>parseInput\<close> return \<open>FAILURE\<close>, the run
  returns \<open>FAILURE\<close>, and no call is made on the output file: neither report is opened
  or written.
\<close>

theorem leftover_byte_fails:
  assumes "length inp mod 3 = 1"
  shows "fst (parseInput jnk (Some inp) init_state) = FAILURE
       \<and> main \<lparr>input_file = Some inp, stack_junk = jnk, stream_w = fw, stream_a = fa\<rparr>
           = Inr (FAILURE, [])"
  using assms by (simp add: parseInput_def main_def parse_loop_unpack split: prod.splits)

theorem leftover_byte_fails_witness:
  "fst (parseInput (0, 0, 0) (Some [1, 2, 3, 4]) init_state) = FAILURE
   \<and> main \<lparr>input_file = Some [1, 2, 3, 4], stack_junk = (0, 0, 0),
           stream_w = healthy, stream_a = healthy\<rparr>
       = Inr (FAILURE, [])"
  using leftover_byte_fails [of "[1, 2, 3, 4]"] by simp

subsection \<open>The start offset of the last values\<close>

text \<open>
  C10: the start offset \<open>(lastValuesIdx - lastValuesCount) % 32\<close>, computed in 64-bit
  unsigned arithmetic and converted to \<open>int\<close>, is the mathematical
  \<open>(lastValuesIdx - lastValuesCount) mod 32\<close>, between 0 and 31, in every state (also
  when \<open>lastValuesCount\<close> is greater than \<open>lastValuesIdx\<close>).
\<close>

theorem start_offset_correct:
  "start_idx s = (uint (lastValuesIdx s) - uint (lastValuesCount s)) mod 32
   \<and> 0 \<le> start_idx s \<and> start_idx s < 32"
  by (simp add: start_idx_eq)

lemma length_zero_counts [simp]: "length zero_counts = 4096"
  by (simp add: zero_counts_def)

lemma nth_zero_counts [simp]: "i < 4096 \<Longrightarrow> zero_counts ! i = 0"
  by (simp add: zero_counts_def)

lemma length_zero_values [simp]: "length zero_values = 32"
  by (simp add: zero_values_def)

lemma nth_zero_values [simp]: "i < 32 \<Longrightarrow> zero_values ! i = 0"
  by (simp add: zero_values_def)

subsection \<open>The state after a sequence of insertions\<close>

lemma valueCount_insertValue:
  "valueCount (insertValue v s) = (valueCount s)[unat v := valueCount s ! unat v + 1]"
  by (simp add: insertValue_def Let_def)

lemma lastValues_insertValue:
  "lastValues (insertValue v s) = (lastValues s)[unat (lastValuesIdx s) := v]"
  by (simp add: insertValue_def Let_def)

lemma lastValuesIdx_insertValue:
  "lastValuesIdx (insertValue v s) = (lastValuesIdx s + 1) mod 32"
  by (simp add: insertValue_def Let_def)

lemma lastValuesCount_insertValue:
  "lastValuesCount (insertValue v s) =
     (if lastValuesCount s < 32 then lastValuesCount s + 1 else lastValuesCount s)"
  by (simp add: insertValue_def Let_def)

lemma fold_ingest:
  "fold ingest vs (mx, s) =
     (fold max_step vs mx, fold insertValue vs s)"
  by (induction vs arbitrary: mx s) (simp_all add: ingest_def)

lemma length_valueCount_fold:
  "length (valueCount (fold insertValue vs s)) = length (valueCount s)"
  by (induction vs arbitrary: s) (simp_all add: valueCount_insertValue)

lemma valueCount_fold:
  assumes "i < length (valueCount s)"
  shows "valueCount (fold insertValue vs s) ! i
           = valueCount s ! i + of_nat (count_list (map unat vs) i)"
  using assms
proof (induction vs arbitrary: s)
  case Nil
  then show ?case by simp
next
  case (Cons v vs)
  have len: "i < length (valueCount (insertValue v s))"
    using Cons.prems by (simp add: valueCount_insertValue)
  show ?case
    using Cons.IH [OF len] Cons.prems
    by (simp add: valueCount_insertValue nth_list_update)
qed

lemma valueCount_parsed:
  assumes "i < 4096"
  shows "valueCount (fold insertValue vs init_state) ! i = of_nat (count_list (map unat vs) i)"
  using valueCount_fold [of i init_state vs] assms by (simp add: init_state_def)

lemma length_valueCount_parsed [simp]:
  "length (valueCount (fold insertValue vs init_state)) = 4096"
  by (simp add: length_valueCount_fold init_state_def)




subsection \<open>A stream without failures\<close>

lemma opens_healthy [simp]: "opens healthy"
  by (simp add: healthy_def)

lemma fprintf_healthy [simp]: "fprintf healthy l log = (True, log @ [Fprintf l True])"
  by (simp add: fprintf_def healthy_def)

lemma print_loop_healthy:
  "print_loop healthy i j n log = (True, log @ replicate (nat (n - j)) (Fprintf (Value i) True))"
proof (induction "nat (n - j)" arbitrary: j log)
  case 0
  then show ?case by (subst print_loop.simps) simp
next
  case (Suc k)
  then have lt: "j < n" and k: "k = nat (n - (j + 1))" by linarith+
  have r: "nat (n - j) = Suc (nat (n - (j + 1)))" using lt by linarith
  show ?case
    by (subst print_loop.simps) (simp add: lt Suc.hyps(1) [OF k] r replicate_append_same)
qed

subsection \<open>The whole run in terms of the stream of values\<close>

lemma parseInput_unpack:
  "parseInput jnk (Some inp) init_state =
     (if length inp mod 3 = 1 then FAILURE else fold max_step (unpack inp) 0,
      fold insertValue (unpack inp) init_state)"
  by (simp add: parseInput_def parse_loop_unpack fold_ingest)


subsection \<open>Empty buckets in the downward scans\<close>

lemma getCount_loop_skip:
  assumes "lo \<le> i" and "- 1 \<le> lo" and "i < 4096"
    and "\<And>j. lo < j \<Longrightarrow> j \<le> i \<Longrightarrow> valueCount s ! nat j = 0"
  shows "getCount_loop s i c = getCount_loop s lo c"
  using assms
proof (induction "nat (i - lo)" arbitrary: i)
  case 0
  then show ?case by simp
next
  case (Suc d)
  then have lt: "lo < i" and d: "d = nat (i - 1 - lo)" by linarith+
  have z: "valueCount s ! nat i = 0" using Suc.prems(4) [of i] lt by simp
  have rest: "getCount_loop s (i - 1) c = getCount_loop s lo c"
    using Suc.hyps(1) [OF d] Suc.prems lt by simp
  show ?case
  proof (cases "c < 32")
    case True
    then show ?thesis
      using lt Suc.prems(2,3) z rest
      by (subst getCount_loop.simps) (simp add: valueCount_at_def)
  next
    case False
    then show ?thesis
      by (subst getCount_loop.simps, subst (2) getCount_loop.simps) simp
  qed
qed


lemma getStart_loop_skip:
  assumes "lo \<le> i" and "- 1 \<le> lo" and "i < 4096" and "c < 32"
    and "\<And>j. lo < j \<Longrightarrow> j \<le> i \<Longrightarrow> valueCount s ! nat j = 0"
  shows "getStart_loop s i c = getStart_loop s lo c"
  using assms
proof (induction "nat (i - lo)" arbitrary: i)
  case 0
  then show ?case by simp
next
  case (Suc d)
  then have lt: "lo < i" and d: "d = nat (i - 1 - lo)" by linarith+
  have z: "valueCount s ! nat i = 0" using Suc.prems(5) [of i] lt by simp
  have rest: "getStart_loop s (i - 1) c = getStart_loop s lo c"
    using Suc.hyps(1) [OF d] Suc.prems lt by simp
  show ?case
    using lt Suc.prems(2,3,4) z rest
    by (subst getStart_loop.simps) (simp add: valueCount_at_def)
qed

lemma emit_loop_skip:
  assumes "0 \<le> i" and "0 \<le> n" and "i + n \<le> 4096"
    and "\<And>j. i \<le> j \<Longrightarrow> j < i + n \<Longrightarrow> valueCount s ! nat j = 0"
  shows "emit_loop f s start i n log = Inr (SUCCESS, log)"
  using assms
proof (induction "nat n" arbitrary: i n)
  case 0
  then show ?case by (subst emit_loop.simps) simp
next
  case (Suc d)
  then have pos: "0 < n" and d: "d = nat (n - 1)" by linarith+
  have z: "valueCount s ! nat i = 0" using Suc.prems(4) [of i] pos by simp
  have rest: "emit_loop f s start (i + 1) (n - 1) log = Inr (SUCCESS, log)"
    using Suc.hyps(1) [OF d] Suc.prems pos by simp
  show ?case
    using pos Suc.prems(1,3) z rest
    by (subst emit_loop.simps) (simp add: valueCount_at_def)
qed


subsection \<open>Evaluating a run\<close>

lemmas run_simps =
  main_def parseInput_def parse_loop_Nil parse_loop_1 parse_loop_2 parse_loop_3
  ingest_def max_step_def insertValue_def init_state_def value24_def UPPER_12BITS_MASK_def
  LOWER_12BITS_MASK_def generateSortedOutput_def generateLastOutput_def getCount_def
  getStart_def getCount_loop.simps getStart_loop.simps emit_loop.simps print_loop.simps
  last_loop.simps valueCount_at_def fprintf_def start_idx_def Let_def

subsection \<open>The empty input\<close>

text \<open>
  C7: on the empty input, whenever the output file can be opened for both reports, the run
  returns \<open>SUCCESS\<close> and the calls on the output file are exactly: open, the header of
  the sorted report, close, open, the header of the last values, close. There is no
  value line in either report.
\<close>

theorem empty_input_headers_only:
  assumes "opens fw" and "opens fa"
  shows "main \<lparr>input_file = Some [], stack_junk = jnk, stream_w = fw, stream_a = fa\<rparr>
         = Inr (SUCCESS,
             [Fopen True, Fprintf (Header sorted_header) (\<not> write_fails fw 0), Fclose,
              Fopen True, Fprintf (Header last_header) (\<not> write_fails fa 0), Fclose])"
  using assms by (simp add: run_simps)

theorem empty_input_headers_only_witness:
  "opens healthy \<and>
   main \<lparr>input_file = Some [], stack_junk = (0, 0, 0), stream_w = healthy, stream_a = healthy\<rparr>
     = Inr (SUCCESS,
         [Fopen True, Fprintf (Header sorted_header) True, Fclose,
          Fopen True, Fprintf (Header last_header) True, Fclose])"
proof -
  have h: "opens healthy" by (simp add: healthy_def)
  show ?thesis
    using empty_input_headers_only [OF h h, of "(0, 0, 0)"] h by (simp add: healthy_def)
qed

subsection \<open>A failed write of the header\<close>

text \<open>
  C8, at the input where the code departs from it: the input is empty and the first
  \<open>fprintf\<close> on the stream of the sorted report, the header line, fails. The run
  returns \<open>SUCCESS\<close>, and the report of the last values is opened and written after the
  failed write.
\<close>

theorem header_failure_unnoticed:
  "main \<lparr>input_file = Some [], stack_junk = (0, 0, 0),
         stream_w = \<lparr>opens = True, write_fails = (\<lambda>n. n = 0)\<rparr>, stream_a = healthy\<rparr>
     = Inr (SUCCESS,
         [Fopen True, Fprintf (Header sorted_header) False, Fclose,
          Fopen True, Fprintf (Header last_header) True, Fclose])"
  by (simp add: run_simps healthy_def)

text \<open>A failed write of a value line.\<close>

lemma print_loop_log:
  assumes "print_loop f i j n log = (ok, log')"
  shows "\<exists>m. log' = log @ replicate m (Fprintf (Value i) True)
                     @ (if ok then [] else [Fprintf (Value i) False])"
  using assms
proof (induction "nat (n - j)" arbitrary: j log)
  case 0
  then have "\<not> j < n" by simp
  with "0.prems" have "ok" "log' = log"
    by (subst (asm) print_loop.simps, simp)+
  then show ?case by simp
next
  case (Suc d)
  from Suc.hyps(2) have lt: "j < n" and d: "d = nat (n - (j + 1))" by linarith+
  show ?case
  proof (cases "write_fails f (length (filter is_fprintf log))")
    case True
    with Suc.prems lt have "\<not> ok" "log' = log @ [Fprintf (Value i) False]"
      by (subst (asm) print_loop.simps, simp add: fprintf_def)+
    then have "log' = log @ replicate 0 (Fprintf (Value i) True)
                 @ (if ok then [] else [Fprintf (Value i) False])" by simp
    then show ?thesis by blast
  next
    case False
    with Suc.prems lt
    have "print_loop f i (j + 1) n (log @ [Fprintf (Value i) True]) = (ok, log')"
      by (subst (asm) print_loop.simps) (simp add: fprintf_def)
    from Suc.hyps(1) [OF d this] obtain m where
      "log' = (log @ [Fprintf (Value i) True]) @ replicate m (Fprintf (Value i) True)
                 @ (if ok then [] else [Fprintf (Value i) False])" by blast
    then have "log' = log @ replicate (Suc m) (Fprintf (Value i) True)
                 @ (if ok then [] else [Fprintf (Value i) False])" by simp
    then show ?thesis by blast
  qed
qed

lemma emit_loop_log:
  assumes "emit_loop f s start i cnt log = Inr (r, log')"
  shows "(r = SUCCESS \<and> (\<exists>ws. log' = log @ map (\<lambda>v. Fprintf (Value v) True) ws))
       \<or> (r = FAILURE \<and> (\<exists>ws v. log' = log @ map (\<lambda>v. Fprintf (Value v) True) ws
                                          @ [Fprintf (Value v) False]))"
  using assms
proof (induction "nat cnt" arbitrary: i cnt log)
  case 0
  then have "\<not> 0 < cnt" by simp
  with "0.prems" have "r = SUCCESS" "log' = log"
    by (subst (asm) emit_loop.simps, simp)+
  then have "log' = log @ map (\<lambda>v. Fprintf (Value v) True) []" by simp
  with \<open>r = SUCCESS\<close> show ?case by blast
next
  case (Suc d)
  from Suc.hyps(2) have pos: "0 < cnt" and d: "d = nat (cnt - 1)" by linarith+
  from Suc.prems pos obtain c where at: "valueCount_at s i = Inr c"
    by (subst (asm) emit_loop.simps) (auto split: sum.splits)
  let ?n = "if i = start \<and> 32 < cnt then uint c - (cnt - 32) else uint c"
  obtain ok log1 where pl: "print_loop f i 0 ?n log = (ok, log1)"
    by (cases "print_loop f i 0 ?n log")
  from print_loop_log [OF pl] obtain m where
    log1: "log1 = log @ replicate m (Fprintf (Value i) True)
                    @ (if ok then [] else [Fprintf (Value i) False])" by blast
  have rep: "replicate m (Fprintf (Value i) True) = map (\<lambda>v. Fprintf (Value v) True) (replicate m i)"
    by simp
  consider (skip) "uint c \<le> 0" | (failed) "\<not> uint c \<le> 0" "\<not> ok"
    | (printed) "\<not> uint c \<le> 0" "ok" by blast
  then show ?case
  proof cases
    case skip
    with Suc.prems pos at have "emit_loop f s start (i + 1) (cnt - 1) log = Inr (r, log')"
      by (subst (asm) emit_loop.simps) simp
    from Suc.hyps(1) [OF d this] show ?thesis .
  next
    case failed
    with Suc.prems pos at pl have "r = FAILURE" "log' = log1"
      by (subst (asm) emit_loop.simps, simp add: Let_def)+
    then have "r = FAILURE \<and> log' = log @ map (\<lambda>v. Fprintf (Value v) True) (replicate m i)
                         @ [Fprintf (Value i) False]"
      using log1 failed(2) by simp
    then show ?thesis by blast
  next
    case printed
    with Suc.prems pos at pl have "emit_loop f s start (i + 1) (cnt - 1) log1 = Inr (r, log')"
      by (subst (asm) emit_loop.simps) (simp add: Let_def)
    from Suc.hyps(1) [OF d this]
    have "(r = SUCCESS \<and> (\<exists>ws. log' = log1 @ map (\<lambda>v. Fprintf (Value v) True) ws))
        \<or> (r = FAILURE \<and> (\<exists>ws v. log' = log1 @ map (\<lambda>v. Fprintf (Value v) True) ws
                                          @ [Fprintf (Value v) False]))" .
    moreover have l1: "log1 = log @ map (\<lambda>v. Fprintf (Value v) True) (replicate m i)"
      using log1 printed(2) by simp
    ultimately show ?thesis
    proof (elim disjE conjE exE)
      fix ws
      assume "r = SUCCESS" and "log' = log1 @ map (\<lambda>v. Fprintf (Value v) True) ws"
      then have "r = SUCCESS \<and> log' = log @ map (\<lambda>v. Fprintf (Value v) True) (replicate m i @ ws)"
        unfolding l1 by simp
      then show ?thesis by blast
    next
      fix ws v
      assume "r = FAILURE"
        and "log' = log1 @ map (\<lambda>v. Fprintf (Value v) True) ws @ [Fprintf (Value v) False]"
      then have "r = FAILURE \<and> log' = log @ map (\<lambda>v. Fprintf (Value v) True) (replicate m i @ ws)
                    @ [Fprintf (Value v) False]"
        unfolding l1 by simp
      then show ?thesis by blast
    qed
  qed
qed

text \<open>
  The writes that are checked: when the write of a value line fails in the sorted report,
  \<open>generateSortedOutput\<close> returns \<open>FAILURE\<close> with the stream closed, and the run returns
  \<open>FAILURE\<close> with the calls of the sorted report only; the report of the last values is
  not opened.
\<close>

lemma value_line_failure_stops_run:
  assumes "parseInput (stack_junk e) (input_file e) init_state = (mx, s)" and "0 \<le> mx"
    and "generateSortedOutput (stream_w e) s mx = Inr (r1, log1)"
    and "Fprintf (Value v) False \<in> set log1"
  shows "r1 = FAILURE \<and> last log1 = Fclose \<and> main e = Inr (FAILURE, log1)"
proof -
  have op: "opens (stream_w e)"
    using assms(3,4) by (auto simp add: generateSortedOutput_def split: if_splits)
  let ?log0 = "snd (fprintf (stream_w e) (Header sorted_header) [Fopen True])"
  from assms(3) op obtain cnt start log' where
    em: "emit_loop (stream_w e) s start start cnt ?log0 = Inr (r1, log')"
    and log1: "log1 = log' @ [Fclose]"
    by (auto simp add: generateSortedOutput_def Let_def split: sum.splits)
  have l0: "Fprintf (Value v) False \<notin> set ?log0"
    by (simp add: fprintf_def Let_def)
  have "r1 = FAILURE"
  proof (rule ccontr)
    assume "r1 \<noteq> FAILURE"
    with emit_loop_log [OF em] obtain ws where
      "log' = ?log0 @ map (\<lambda>v. Fprintf (Value v) True) ws" by auto
    then have "Fprintf (Value v) False \<notin> set log1"
      using l0 unfolding log1 by auto
    with assms(4) show False by simp
  qed
  then show ?thesis
    using assms(1,2,3) log1 by (simp add: main_def)
qed
subsection \<open>The input \<open>0x0F 0xFF 0x00\<close>\<close>

lemma unpack_0FFF00: "unpack [0x0F, 0xFF, 0x00] = [255, 3840]"
  by (simp add: value24_def UPPER_12BITS_MASK_def LOWER_12BITS_MASK_def)

lemma sorted_0FFF00:
  "generateSortedOutput healthy (insertValue 3840 (insertValue 255 init_state)) 3840
     = Inr (SUCCESS, [Fopen True, Fprintf (Header sorted_header) True, Fclose])"
proof -
  let ?s = "insertValue 3840 (insertValue 255 init_state)"
  have vc: "valueCount ?s ! i = of_nat (count_list [255, 3840] i)" if "i < 4096" for i
    using valueCount_parsed [OF that, of "[255, 3840]"] by simp
  have z: "valueCount ?s ! nat j = 0" if "0 \<le> j" "j < 4096" "j \<noteq> 255" "j \<noteq> 3840" for j
    using that vc [of "nat j"] by auto
  have at: "valueCount_at ?s 3840 = Inr 1" "valueCount_at ?s 255 = Inr 1"
    using vc [of 3840] vc [of 255] by (simp_all add: valueCount_at_def)
  have "getCount ?s 3840 = getCount_loop ?s 3839 1"
    unfolding getCount_def by (subst getCount_loop.simps) (simp add: at)
  also have "\<dots> = getCount_loop ?s 255 1"
    by (rule getCount_loop_skip) (simp_all add: z)
  also have "\<dots> = getCount_loop ?s 254 2"
    by (subst getCount_loop.simps) (simp add: at)
  also have "\<dots> = getCount_loop ?s (- 1) 2"
    by (rule getCount_loop_skip) (simp_all add: z)
  also have "\<dots> = Inr 2"
    by (subst getCount_loop.simps) simp
  finally have gc: "getCount ?s 3840 = Inr 2" .
  have "getStart ?s 3840 = getStart_loop ?s 3839 1"
    unfolding getStart_def by (subst getStart_loop.simps) (simp add: at)
  also have "\<dots> = getStart_loop ?s 255 1"
    by (rule getStart_loop_skip) (simp_all add: z)
  also have "\<dots> = getStart_loop ?s 254 2"
    by (subst getStart_loop.simps) (simp add: at)
  also have "\<dots> = getStart_loop ?s (- 1) 2"
    by (rule getStart_loop_skip) (simp_all add: z)
  also have "\<dots> = Inr 0"
    by (subst getStart_loop.simps) simp
  finally have gs: "getStart ?s 3840 = Inr 0" .
  have em: "emit_loop healthy ?s 0 0 2 log = Inr (SUCCESS, log)" for log
    by (rule emit_loop_skip) (simp_all add: z)
  show ?thesis
    by (simp add: generateSortedOutput_def gc gs em)
qed

lemma last_0FFF00:
  "generateLastOutput healthy (insertValue 3840 (insertValue 255 init_state))
     = (SUCCESS, [Fopen True, Fprintf (Header last_header) True,
                  Fprintf (Value 255) True, Fprintf (Value 3840) True, Fclose])"
  by (simp add: generateLastOutput_def start_idx_def last_loop.simps insertValue_def
        init_state_def Let_def)


lemma parse_0FFF00:
  "parseInput jnk (Some [0x0F, 0xFF, 0x00]) init_state
     = (3840, insertValue 3840 (insertValue 255 init_state))"
  unfolding parseInput_unpack unpack_0FFF00 by (simp add: max_step_def)

text \<open>
  What holds for this input: the values are 255 then 3840, and the report of the last
  values writes its header and then the lines 255 and 3840, each ended by CR LF.
\<close>

lemma last_text_0FFF00:
  "unpack [0x0F, 0xFF, 0x00] = [255, 3840]
   \<and> written (snd (generateLastOutput healthy
         (snd (parseInput jnk (Some [0x0F, 0xFF, 0x00]) init_state))))
       = last_header @ ''255'' @ CRLF @ ''3840'' @ CRLF"
  by (simp add: unpack_0FFF00 parse_0FFF00 last_0FFF00 written_def show_int_def
        show_nat.simps del: unpack.simps)

text \<open>
  C2, at the input where the code departs from it: for the three bytes
  \<open>0x0F 0xFF 0x00\<close>, \<open>parseInput\<close> inserts 255 then 3840 and returns the maximum 3840,
  and the run returns \<open>SUCCESS\<close>; the report of the last values has the lines 255 and
  3840, in the order of arrival; the sorted report has its header and no value line,
  neither 3840 nor 255. (\<open>getCount\<close> returns 2 and \<open>getStart\<close> returns 0, and the loop
  of \<open>generateSortedOutput\<close> looks at the indices 0 and 1 only.)
\<close>

theorem group_0FFF00_sorted_report_empty:
  "parseInput jnk (Some [0x0F, 0xFF, 0x00]) init_state
     = (3840, insertValue 3840 (insertValue 255 init_state))
   \<and> main \<lparr>input_file = Some [0x0F, 0xFF, 0x00], stack_junk = jnk,
           stream_w = healthy, stream_a = healthy\<rparr>
       = Inr (SUCCESS,
           [Fopen True, Fprintf (Header sorted_header) True, Fclose,
            Fopen True, Fprintf (Header last_header) True,
            Fprintf (Value 255) True, Fprintf (Value 3840) True, Fclose])"
  by (simp add: main_def parse_0FFF00 sorted_0FFF00 last_0FFF00)

subsection \<open>Thirty-two times the value 4095\<close>

lemma replicate_48: "replicate 48 x = [x,x,x,x,x,x,x,x,x,x,x,x,x,x,x,x,x,x,x,x,x,x,x,x,x,x,x,x,x,x,x,x,
   x,x,x,x,x,x,x,x,x,x,x,x,x,x,x,x]"
  by (simp add: eval_nat_numeral)

text \<open>
  C9, at the input where the code departs from it: 48 bytes \<open>0xFF\<close> are 32 times the
  value 4095. \<open>getCount\<close> returns 32 and \<open>getStart\<close> returns 4095; the loop of
  \<open>generateSortedOutput\<close> writes the 32 lines at index 4095 and goes on to read
  \<open>valueCount[4096]\<close>, outside the table.
\<close>

theorem sorted_report_reads_out_of_bounds:
  "main \<lparr>input_file = Some (replicate 48 0xFF), stack_junk = (0, 0, 0),
         stream_w = healthy, stream_a = healthy\<rparr>
     = Inl (OutOfBounds 4096)"
proof -
  let ?vs = "unpack (replicate 48 0xFF)"
  let ?s = "fold insertValue ?vs init_state"
  have u: "(ucast (UPPER_12BITS_MASK (value24 0xFF 0xFF 0xFF)) :: uint16_t) = 0xFFF"
    and l: "(ucast (LOWER_12BITS_MASK (value24 0xFF 0xFF 0xFF)) :: uint16_t) = 0xFFF"
    by (simp_all add: value24_def UPPER_12BITS_MASK_def LOWER_12BITS_MASK_def)
  have vs: "?vs = [0xFFF, 0xFFF, 0xFFF, 0xFFF, 0xFFF, 0xFFF, 0xFFF, 0xFFF,
                   0xFFF, 0xFFF, 0xFFF, 0xFFF, 0xFFF, 0xFFF, 0xFFF, 0xFFF,
                   0xFFF, 0xFFF, 0xFFF, 0xFFF, 0xFFF, 0xFFF, 0xFFF, 0xFFF,
                   0xFFF, 0xFFF, 0xFFF, 0xFFF, 0xFFF, 0xFFF, 0xFFF, 0xFFF]"
    unfolding replicate_48 by (simp add: u l)
  have mx: "fold max_step ?vs 0 = 4095"
    unfolding vs by (simp add: max_step_def)
  have "valueCount ?s ! 4095 = of_nat (count_list (map unat ?vs) 4095)"
    by (rule valueCount_parsed) simp
  also have "\<dots> = 32"
    unfolding vs by simp
  finally have c: "valueCount ?s ! 4095 = 32" .
  have at: "valueCount_at ?s 4095 = Inr 32" "valueCount_at ?s 4096 = Inl (OutOfBounds 4096)"
    using c by (simp_all add: valueCount_at_def)
  have gc: "getCount ?s 4095 = Inr 32"
    unfolding getCount_def
    by (subst getCount_loop.simps, simp add: at, subst getCount_loop.simps, simp)
  have gs: "getStart ?s 4095 = Inr 4095"
    unfolding getStart_def
    by (subst getStart_loop.simps, simp add: at, subst getStart_loop.simps, simp)
  have em: "emit_loop healthy ?s 4095 4095 32 log = Inl (OutOfBounds 4096)" for log
    by (subst emit_loop.simps, simp add: at print_loop_healthy, subst emit_loop.simps,
        simp add: at)
  have "generateSortedOutput healthy ?s 4095 = Inl (OutOfBounds 4096)"
    by (simp add: generateSortedOutput_def gc gs em)
  then show ?thesis
    by (simp add: main_def parseInput_unpack mx)
qed

subsection \<open>The input \<open>0xAB 0xCD\<close>\<close>

lemma unpack_ABCD: "unpack [0xAB, 0xCD] = [2748]"
  by (simp add: value24_def UPPER_12BITS_MASK_def)

lemma parse_ABCD:
  "parseInput jnk (Some [0xAB, 0xCD]) init_state = (2748, insertValue 2748 init_state)"
  unfolding parseInput_unpack unpack_ABCD by (simp add: max_step_def)

lemma sorted_ABCD:
  "generateSortedOutput healthy (insertValue 2748 init_state) 2748
     = Inr (SUCCESS, [Fopen True, Fprintf (Header sorted_header) True, Fclose])"
proof -
  let ?s = "insertValue 2748 init_state"
  have vc: "valueCount ?s ! i = of_nat (count_list [2748] i)" if "i < 4096" for i
    using valueCount_parsed [OF that, of "[2748]"] by simp
  have z: "valueCount ?s ! nat j = 0" if "0 \<le> j" "j < 4096" "j \<noteq> 2748" for j
    using that vc [of "nat j"] by auto
  have at: "valueCount_at ?s 2748 = Inr 1"
    using vc [of 2748] by (simp add: valueCount_at_def)
  have "getCount ?s 2748 = getCount_loop ?s 2747 1"
    unfolding getCount_def by (subst getCount_loop.simps) (simp add: at)
  also have "\<dots> = getCount_loop ?s (- 1) 1"
    by (rule getCount_loop_skip) (simp_all add: z)
  also have "\<dots> = Inr 1"
    by (subst getCount_loop.simps) simp
  finally have gc: "getCount ?s 2748 = Inr 1" .
  have "getStart ?s 2748 = getStart_loop ?s 2747 1"
    unfolding getStart_def by (subst getStart_loop.simps) (simp add: at)
  also have "\<dots> = getStart_loop ?s (- 1) 1"
    by (rule getStart_loop_skip) (simp_all add: z)
  also have "\<dots> = Inr 0"
    by (subst getStart_loop.simps) simp
  finally have gs: "getStart ?s 2748 = Inr 0" .
  have em: "emit_loop healthy ?s 0 0 1 log = Inr (SUCCESS, log)" for log
    by (rule emit_loop_skip) (simp_all add: z z [of 0, simplified])
  show ?thesis
    by (simp add: generateSortedOutput_def gc gs em)
qed

lemma last_ABCD:
  "generateLastOutput healthy (insertValue 2748 init_state)
     = (SUCCESS, [Fopen True, Fprintf (Header last_header) True,
                  Fprintf (Value 2748) True, Fclose])"
  by (simp add: generateLastOutput_def start_idx_def last_loop.simps insertValue_def
        init_state_def Let_def)

text \<open>
  C3, at the input where the code departs from it: for the two bytes \<open>0xAB 0xCD\<close>,
  whatever the third byte of the read buffer holds, \<open>parseInput\<close> inserts the one value
  2748 and the run returns \<open>SUCCESS\<close>; the report of the last values has the one line
  2748, and the sorted report has its header and no value line.
\<close>

theorem two_bytes_ABCD:
  "main \<lparr>input_file = Some [0xAB, 0xCD], stack_junk = jnk,
         stream_w = healthy, stream_a = healthy\<rparr>
     = Inr (SUCCESS,
         [Fopen True, Fprintf (Header sorted_header) True, Fclose,
          Fopen True, Fprintf (Header last_header) True, Fprintf (Value 2748) True, Fclose])"
  by (simp add: main_def parse_ABCD sorted_ABCD last_ABCD)

subsection \<open>The ring of the last values\<close>

lemma unat_succ_mod32:
  fixes x :: size_t
  assumes "unat x = k mod 32"
  shows "unat ((x + 1) mod 32) = Suc k mod 32"
proof -
  have "unat x < 32" using assms by simp
  then have "unat (x + 1) = unat x + 1"
    by (simp add: unat_word_ariths)
  then have "unat ((x + 1) mod 32) = (k mod 32 + 1) mod 32"
    using assms by (simp add: unat_mod)
  then show ?thesis by (simp add: mod_Suc_eq)
qed

lemma unat_count_step:
  fixes x :: size_t
  assumes "unat x = min k 32"
  shows "unat (if x < 32 then x + 1 else x) = min (Suc k) 32"
proof (cases "x < 32")
  case True
  then have lt: "unat x < 32" by (simp add: word_less_nat_alt)
  then have "unat (x + 1) = unat x + 1" by (simp add: unat_word_ariths)
  with True lt assms show ?thesis by (simp add: min_def split: if_splits)
next
  case False
  then have "\<not> unat x < 32" by (simp add: word_less_nat_alt)
  with False assms show ?thesis by (simp add: min_def split: if_splits)
qed

lemma ring_invariant:
  "length (lastValues (fold insertValue vs init_state)) = 32
   \<and> unat (lastValuesIdx (fold insertValue vs init_state)) = length vs mod 32
   \<and> unat (lastValuesCount (fold insertValue vs init_state)) = min (length vs) 32
   \<and> (\<forall>j. j < min (length vs) 32 \<longrightarrow>
         lastValues (fold insertValue vs init_state) ! ((length vs - Suc j) mod 32)
           = vs ! (length vs - Suc j))"
proof (induction vs rule: rev_induct)
  case Nil
  show ?case by (simp add: init_state_def)
next
  case (snoc v vs)
  let ?s = "fold insertValue vs init_state"
  let ?k = "length vs"
  from snoc have len: "length (lastValues ?s) = 32"
    and idx: "unat (lastValuesIdx ?s) = ?k mod 32"
    and cnt: "unat (lastValuesCount ?s) = min ?k 32"
    and old: "\<And>j. j < min ?k 32 \<Longrightarrow> lastValues ?s ! ((?k - Suc j) mod 32) = vs ! (?k - Suc j)"
    by simp_all
  have s': "fold insertValue (vs @ [v]) init_state = insertValue v ?s" by simp
  have c1: "length (lastValues (insertValue v ?s)) = 32"
    by (simp add: lastValues_insertValue len)
  have c2: "unat (lastValuesIdx (insertValue v ?s)) = length (vs @ [v]) mod 32"
    by (simp add: lastValuesIdx_insertValue unat_succ_mod32 [OF idx])
  have c3: "unat (lastValuesCount (insertValue v ?s)) = min (length (vs @ [v])) 32"
    using unat_count_step [OF cnt] by (simp add: lastValuesCount_insertValue)
  have c4: "lastValues (insertValue v ?s) ! ((length (vs @ [v]) - Suc j) mod 32)
              = (vs @ [v]) ! (length (vs @ [v]) - Suc j)"
    if j: "j < min (length (vs @ [v])) 32" for j
  proof (cases j)
    case 0
    then show ?thesis
      by (simp add: lastValues_insertValue idx len)
  next
    case (Suc j')
    with j have j': "j' < min ?k 32" and small: "Suc j' < 32" and le: "Suc j' \<le> ?k" by simp_all
    have ne: "(?k - Suc j') mod 32 \<noteq> ?k mod 32"
    proof
      assume "(?k - Suc j') mod 32 = ?k mod 32"
      then have "(?k - (?k - Suc j')) mod 32 = 0"
        using le by (metis diff_le_self mod_eq_dvd_iff_nat dvd_imp_mod_0)
      moreover have "?k - (?k - Suc j') = Suc j'" using le by simp
      ultimately show False using small by simp
    qed
    have "lastValues (insertValue v ?s) ! ((?k - Suc j') mod 32)
            = lastValues ?s ! ((?k - Suc j') mod 32)"
      using ne by (simp add: lastValues_insertValue idx)
    also have "\<dots> = vs ! (?k - Suc j')" by (rule old [OF j'])
    also have "\<dots> = (vs @ [v]) ! (?k - Suc j')"
    proof -
      have "?k - Suc j' < ?k" using le by linarith
      then show ?thesis by (simp add: nth_append)
    qed
    finally show ?thesis using Suc by simp
  qed
  show ?case unfolding s' using c1 c2 c3 c4 by blast
qed


lemma last_loop_healthy:
  assumes "0 \<le> i" and "i \<le> uint (lastValuesCount s)" and "0 \<le> st"
  shows "last_loop healthy s ((st + i) mod 32) i log =
           (SUCCESS, log @ map (\<lambda>j. Fprintf (Value (uint (lastValues s ! ((nat st + j) mod 32)))) True)
                             [nat i..<unat (lastValuesCount s)])"
  using assms
proof (induction "nat (uint (lastValuesCount s) - i)" arbitrary: i log)
  case 0
  then have e: "i = uint (lastValuesCount s)" by simp
  then have "nat i = unat (lastValuesCount s)" by simp
  then show ?case using e by (subst last_loop.simps) simp
next
  case (Suc d)
  from Suc.hyps(2) have lt: "i < uint (lastValuesCount s)"
    and d: "d = nat (uint (lastValuesCount s) - (i + 1))"
    by linarith+
  have "int (unat (lastValuesCount s)) = uint (lastValuesCount s)" by simp
  then have ni: "nat i < unat (lastValuesCount s)"
    using lt Suc.prems(1) by linarith
  have idx: "nat ((st + i) mod 32) = (nat st + nat i) mod 32"
    using Suc.prems(1,3) by (simp add: nat_mod_distrib nat_add_distrib)
  have nxt: "((st + i) mod 32 + 1) mod 32 = (st + (i + 1)) mod 32"
    by (simp add: mod_add_left_eq add.assoc)
  have rest: "last_loop healthy s ((st + (i + 1)) mod 32) (i + 1) log' =
           (SUCCESS, log' @ map (\<lambda>j. Fprintf (Value (uint (lastValues s ! ((nat st + j) mod 32)))) True)
                             [nat (i + 1)..<unat (lastValuesCount s)])" for log'
    using Suc.hyps(1) [OF d] Suc.prems lt by simp
  have up: "[nat i..<unat (lastValuesCount s)] = nat i # [nat (i + 1)..<unat (lastValuesCount s)]"
    using ni Suc.prems(1) by (simp add: upt_conv_Cons nat_add_distrib)
  show ?case
    by (subst last_loop.simps, subst up) (simp add: lt idx nxt rest)
qed


text \<open>
  C5: after the insertion of \<open>K\<close> values (each at most 0xFFF, as \<open>parseInput\<close> passes
  them), \<open>lastValuesCount\<close> is \<open>min K 32\<close>, and on a stream without failures the report
  of the last values is the header followed by one line for each of the last \<open>min K 32\<close>
  values of the sequence, in the order of arrival.
\<close>

theorem recency_report:
  assumes "\<forall>v\<in>set vs. v \<le> 0xFFF"
  shows "unat (lastValuesCount (fold insertValue vs init_state)) = min (length vs) 32
       \<and> generateLastOutput healthy (fold insertValue vs init_state)
           = (SUCCESS, [Fopen True, Fprintf (Header last_header) True]
                @ map (\<lambda>v. Fprintf (Value (uint v)) True)
                      (drop (length vs - min (length vs) 32) vs)
                @ [Fclose])"
proof -
  let ?s = "fold insertValue vs init_state"
  let ?k = "length vs"
  let ?m = "min ?k 32"
  from ring_invariant [of vs]
  have idx: "unat (lastValuesIdx ?s) = ?k mod 32"
    and cnt: "unat (lastValuesCount ?s) = ?m"
    and ring: "\<And>j. j < ?m \<Longrightarrow> lastValues ?s ! ((?k - Suc j) mod 32) = vs ! (?k - Suc j)"
    by simp_all
  have ucnt: "uint (lastValuesCount ?s) = int ?m"
    using cnt by (metis uint_nat)
  have uidx: "uint (lastValuesIdx ?s) = int (?k mod 32)"
    using idx by (metis uint_nat)
  have "start_idx ?s = (int (?k mod 32) - int ?m) mod 32"
    by (simp only: start_idx_eq ucnt uidx)
  also have "\<dots> = (int ?k - int ?m) mod 32"
    by (simp add: zmod_int mod_diff_left_eq)
  also have "\<dots> = int ((?k - ?m) mod 32)"
    by (simp add: zmod_int of_nat_diff)
  finally have st: "start_idx ?s = int ((?k - ?m) mod 32)" .
  have stm: "(start_idx ?s + 0) mod 32 = start_idx ?s"
    unfolding st by (simp add: zmod_int [symmetric])
  have loop: "last_loop healthy ?s (start_idx ?s) 0 log =
      (SUCCESS, log @ map (\<lambda>j. Fprintf (Value (uint (lastValues ?s ! (((?k - ?m) mod 32 + j) mod 32)))) True)
                        [0..<?m])" for log
    using last_loop_healthy [of 0 ?s "start_idx ?s" log] cnt
    by (simp only: stm) (simp add: st)
  have lines: "map (\<lambda>j. Fprintf (Value (uint (lastValues ?s ! (((?k - ?m) mod 32 + j) mod 32)))) True) [0..<?m]
      = map (\<lambda>v. Fprintf (Value (uint v)) True) (drop (?k - ?m) vs)"
  proof (rule nth_equalityI)
    show "length (map (\<lambda>j. Fprintf (Value (uint (lastValues ?s ! (((?k - ?m) mod 32 + j) mod 32)))) True) [0..<?m])
        = length (map (\<lambda>v. Fprintf (Value (uint v)) True) (drop (?k - ?m) vs))"
      by simp
  next
    fix j
    assume "j < length (map (\<lambda>j. Fprintf (Value (uint (lastValues ?s ! (((?k - ?m) mod 32 + j) mod 32)))) True) [0..<?m])"
    then have j: "j < ?m" by simp
    then have j': "?m - Suc j < ?m" by linarith
    have pos: "?k - Suc (?m - Suc j) = ?k - ?m + j" using j by linarith
    have "((?k - ?m) mod 32 + j) mod 32 = (?k - ?m + j) mod 32"
      by (simp add: mod_add_left_eq)
    then have "lastValues ?s ! (((?k - ?m) mod 32 + j) mod 32) = vs ! (?k - ?m + j)"
      using ring [OF j'] pos by simp
    then show "map (\<lambda>j. Fprintf (Value (uint (lastValues ?s ! (((?k - ?m) mod 32 + j) mod 32)))) True) [0..<?m] ! j
        = map (\<lambda>v. Fprintf (Value (uint v)) True) (drop (?k - ?m) vs) ! j"
      using j by simp
  qed
  have "generateLastOutput healthy ?s
           = (SUCCESS, [Fopen True, Fprintf (Header last_header) True]
                @ map (\<lambda>v. Fprintf (Value (uint v)) True) (drop (?k - ?m) vs) @ [Fclose])"
    by (simp add: generateLastOutput_def loop lines)
  with cnt show ?thesis by simp
qed

theorem recency_report_witness:
  "list_all (\<lambda>v. v \<le> 0xFFF) (map word_of_nat [1..<41] :: uint16_t list)
   \<and> unat (lastValuesCount
         (fold insertValue (map word_of_nat [1..<41] :: uint16_t list) init_state)) = 32
   \<and> generateLastOutput healthy
         (fold insertValue (map word_of_nat [1..<41] :: uint16_t list) init_state)
       = (SUCCESS, [Fopen True, Fprintf (Header last_header) True]
            @ map (\<lambda>n. Fprintf (Value (int n)) True) [9..<41]
            @ [Fclose])"
proof -
  have h: "\<forall>v\<in>set (map word_of_nat [1..<41] :: uint16_t list). v \<le> 0xFFF"
    by (auto simp add: word_le_nat_alt unat_of_nat)
  show ?thesis
    using recency_report [OF h] h by (simp add: drop_map list_all_iff)
qed

subsection \<open>The sum of the counts\<close>

lemma unat_valueCount_parsed:
  assumes "i < 4096"
  shows "unat (valueCount (fold insertValue vs init_state) ! i)
           = count_list (map unat vs) i mod 256"
  by (simp add: valueCount_parsed [OF assms] unat_of_nat)

lemma sum_count_list:
  fixes n :: nat
  assumes "\<forall>x\<in>set xs. x < n"
  shows "(\<Sum>i = 0..<n. count_list xs i) = length xs"
  using assms
proof (induction xs)
  case Nil
  then show ?case by simp
next
  case (Cons x xs)
  then have x: "x < n" and IH: "(\<Sum>i = 0..<n. count_list xs i) = length xs" by simp_all
  have "(\<Sum>i = 0..<n. count_list (x # xs) i)
          = (\<Sum>i = 0..<n. count_list xs i + (if x = i then 1 else 0))"
    by (rule sum.cong) simp_all
  also have "\<dots> = (\<Sum>i = 0..<n. count_list xs i) + (\<Sum>i = 0..<n. if x = i then 1 else 0)"
    by (rule sum.distrib)
  also have "(\<Sum>i = 0..<n. if x = i then 1 else 0) = (1::nat)"
    using x by (subst sum.delta') simp_all
  finally show ?case using IH by simp
qed

lemma count_total_parsed:
  "count_total (fold insertValue vs init_state)
     = (\<Sum>i = 0..<4096. count_list (map unat vs) i mod 256)"
proof -
  let ?s = "fold insertValue vs init_state"
  have "count_total ?s = (\<Sum>i = 0..<length (map unat (valueCount ?s)). map unat (valueCount ?s) ! i)"
    unfolding count_total_def by (rule sum_list_sum_nth)
  also have "\<dots> = (\<Sum>i = 0..<4096. unat (valueCount ?s ! i))"
    by simp
  also have "\<dots> = (\<Sum>i = 0..<4096. count_list (map unat vs) i mod 256)"
    by (rule sum.cong) (simp_all add: unat_valueCount_parsed)
  finally show ?thesis .
qed

lemma unat_unpack_lt: "v \<in> set (unpack inp) \<Longrightarrow> unat v < 4096"
  using unpack_le [of v inp] by (simp add: word_le_nat_alt)

text \<open>
  C4, as the code has it: each counter is 8 bits wide, so the invariant needs that no
  value occurs more than 255 times. Then the sum of the counts of all 4096 buckets after
  \<open>parseInput\<close> is the number of values inserted, and that number is
  \<open>2 * (bytes / 3) + (1 if bytes % 3 == 2)\<close>. (It holds whether or not the input ends
  with a single leftover byte.)
\<close>

theorem counts_sum_to_values:
  assumes "\<forall>v\<in>set (unpack inp). count_list (unpack inp) v \<le> 255"
  shows "count_total (snd (parseInput jnk (Some inp) init_state)) = length (unpack inp)
       \<and> length (unpack inp)
           = 2 * (length inp div 3) + (if length inp mod 3 = 2 then 1 else 0)"
proof -
  let ?vs = "unpack inp"
  have small: "count_list (map unat ?vs) i \<le> 255" for i
  proof (cases "i \<in> set (map unat ?vs)")
    case True
    then obtain v where v: "v \<in> set ?vs" and i: "i = unat v" by auto
    have "count_list (map unat ?vs) (unat v) = count_list ?vs v"
      by (rule count_list_inj_map) (auto simp add: inj_on_def word_unat_eq_iff v)
    with assms v i show ?thesis by simp
  next
    case False
    then have "count_list (map unat ?vs) i = 0" by (simp add: count_list_0_iff)
    then show ?thesis by simp
  qed
  have "count_total (fold insertValue ?vs init_state)
          = (\<Sum>i = 0..<4096. count_list (map unat ?vs) i mod 256)"
    by (rule count_total_parsed)
  also have "\<dots> = (\<Sum>i = 0..<4096. count_list (map unat ?vs) i)"
  proof (rule sum.cong)
    fix i
    have "count_list (map unat ?vs) i < 256" using small [of i] by simp
    then show "count_list (map unat ?vs) i mod 256 = count_list (map unat ?vs) i" by simp
  qed simp
  also have "\<dots> = length (map unat ?vs)"
    by (rule sum_count_list) (auto dest: unat_unpack_lt)
  finally have "count_total (fold insertValue ?vs init_state) = length ?vs" by simp
  then show ?thesis
    by (simp add: parseInput_unpack length_unpack)
qed

theorem counts_sum_to_values_witness:
  "list_all (\<lambda>v. count_list (unpack [0x0F, 0xFF, 0x00]) v \<le> 255) (unpack [0x0F, 0xFF, 0x00])
   \<and> count_total (snd (parseInput (0, 0, 0) (Some [0x0F, 0xFF, 0x00]) init_state)) = 2"
proof -
  have h: "\<forall>v\<in>set (unpack [0x0F, 0xFF, 0x00]). count_list (unpack [0x0F, 0xFF, 0x00]) v \<le> 255"
    unfolding unpack_0FFF00 by simp
  show ?thesis
    using counts_sum_to_values [OF h, of "(0, 0, 0)"] h unfolding unpack_0FFF00
    by (simp add: list_all_iff)
qed

text \<open>
  C4 as stated fails: 384 zero bytes are 256 times the value 0; ingestion succeeds, the
  counter of bucket 0 has wrapped to 0, and the sum of all counts is 0, not 256.
\<close>

lemma unpack_zeros: "unpack (replicate (3 * n) 0) = replicate (2 * n) 0"
proof (induction n)
  case 0
  show ?case by simp
next
  case (Suc n)
  have z: "(ucast (UPPER_12BITS_MASK (value24 0 0 0)) :: uint16_t) = 0"
    "(ucast (LOWER_12BITS_MASK (value24 0 0 0)) :: uint16_t) = 0"
    by (simp_all add: value24_def UPPER_12BITS_MASK_def LOWER_12BITS_MASK_def)
  have "3 * Suc n = Suc (Suc (Suc (3 * n)))" by simp
  then have "replicate (3 * Suc n) (0::byte) = 0 # 0 # 0 # replicate (3 * n) 0"
    by (simp only: replicate_Suc)
  then show ?case using Suc z by simp
qed

lemma count_list_replicate: "count_list (replicate n x) y = (if x = y then n else 0)"
  by (induction n) auto

theorem counts_sum_counterexample:
  "fst (parseInput (0, 0, 0) (Some (replicate 384 0)) init_state) = SUCCESS
   \<and> count_total (snd (parseInput (0, 0, 0) (Some (replicate 384 0)) init_state)) = 0
   \<and> 2 * (length (replicate 384 (0::byte)) div 3)
       + (if length (replicate 384 (0::byte)) mod 3 = 2 then 1 else 0) = (256::nat)"
proof -
  have u: "unpack (replicate 384 0) = replicate 256 0"
    using unpack_zeros [of 128] by simp
  have "count_total (fold insertValue (replicate 256 0) init_state)
          = (\<Sum>i = 0..<4096. count_list (map unat (replicate 256 (0::uint16_t))) i mod 256)"
    by (rule count_total_parsed)
  also have "\<dots> = (\<Sum>i = (0::nat)..<4096. (0::nat))"
    by (rule sum.cong) (simp_all add: count_list_replicate)
  finally have c: "count_total (fold insertValue (replicate 256 0) init_state) = 0" by simp
  have m: "fold max_step (replicate n 0) 0 = 0" for n
    by (induction n) (simp_all add: max_step_def)
  show ?thesis
    by (simp add: parseInput_unpack u c m del: fold_replicate)
qed

subsection \<open>The two downward scans\<close>





lemma bucket_nonneg [simp]: "0 \<le> bucket s j"
  by (simp add: bucket_def)


subsection \<open>What the emission loop writes on a stream without failures\<close>









subsection \<open>The lines of a range of buckets\<close>


subsection \<open>The buckets after \<open>parseInput\<close>\<close>






subsection \<open>The sorted report on every input\<close>





subsection \<open>The largest occurrences\<close>















end
